theory Spec2Isabelle
  imports Complex_Main "HOL-Library.Multiset" "HOL-Library.Log_Nat"
begin

section \<open>The offline coincidence sorter (coincidence\_sorter.py)\<close>

text \<open>
  The function \<open>sort_coincidences\<close> reads the tree of singles, reorders its branches by
  time, scans the ordered singles for pairs inside a time window and writes the pairs it
  found. The embedding follows the function line by line.

  Times, energies and positions are 64-bit floats in the source. They are real numbers
  here, and the two arithmetic operations the function performs on times, the addition of
  the offset and the subtraction of two shifted times, round their result to the nearest
  double as the source does. NaN, infinities and overflow are outside the model.
  Identifiers are integers. The detector identifier (\<open>PostStepUniqueVolumeID\<close>) is only
  ever compared with \<open>!=\<close>, so its type is left as a parameter.
\<close>

subsection \<open>Data\<close>

text \<open>One entry of the tree \<open>Singles_main_window\<close>: one value per branch.\<close>

record 'v single =
  GlobalTime :: real
  EventID :: int
  TotalEnergyDeposit :: real
  PostPosition_X :: real
  PostPosition_Y :: real
  PostPosition_Z :: real
  PostStepUniqueVolumeID :: 'v
  TrackID :: int
  RunID :: int

text \<open>
  The tree itself. The branch \<open>RunID\<close> is optional in the source
  (\<open>if 'RunID' in branches.keys()\<close>); when \<open>has_RunID\<close> is false the field \<open>RunID\<close> of
  the entries is never read. The other eight branches are always there: a tree without
  one of them, on which the source raises \<open>KeyError\<close> before sorting, is not a value of
  this type, and neither is a missing file.
\<close>

record 'v tree =
  entries :: "'v single list"
  has_RunID :: bool

text \<open>The local arrays of the function, one per branch, all of the same length.\<close>

record 'v columns =
  times_arr :: "real list"
  eventIDs :: "int list"
  energies :: "real list"
  posX :: "real list"
  posY :: "real list"
  posZ :: "real list"
  volumeIDs :: "'v list"
  trackIDs :: "int list"
  runIDs :: "int list"

text \<open>The dictionary \<open>coinc\<close> appended to the list \<open>coincidences\<close>.\<close>

record 'v coincidence =
  time1 :: real
  time2 :: real
  eventID1 :: int
  eventID2 :: int
  energy1 :: real
  energy2 :: real
  globalPosX1 :: real
  globalPosY1 :: real
  globalPosZ1 :: real
  globalPosX2 :: real
  globalPosY2 :: real
  globalPosZ2 :: real
  volumeID1 :: 'v
  volumeID2 :: 'v
  runID :: int
  trackID1 :: int
  trackID2 :: int
  comptonPhantom1 :: int
  comptonPhantom2 :: int
  RayleighPhantom1 :: int
  RayleighPhantom2 :: int
  sourceID1 :: int
  sourceID2 :: int

text \<open>
  What a call leaves behind: the table written to the output file (nothing is written
  when no coincidence was found) and the returned count.
\<close>

record 'v outcome =
  written :: "'v coincidence list option"
  returned :: nat

datatype error = IndexError

subsection \<open>Reading the branches (lines 27 to 53)\<close>

definition read_branches :: "'v tree \<Rightarrow> 'v columns" where
  "read_branches tr =
     \<lparr> times_arr = map GlobalTime (entries tr),
       eventIDs = map EventID (entries tr),
       energies = map TotalEnergyDeposit (entries tr),
       posX = map PostPosition_X (entries tr),
       posY = map PostPosition_Y (entries tr),
       posZ = map PostPosition_Z (entries tr),
       volumeIDs = map PostStepUniqueVolumeID (entries tr),
       trackIDs = map TrackID (entries tr),
       runIDs = (if has_RunID tr then map RunID (entries tr)
                 else replicate (length (entries tr)) 0) \<rparr>"

subsection \<open>Sorting by time (lines 57 to 67)\<close>

text \<open>
  \<open>np.argsort(times)\<close> is a library call, taken as a parameter \<open>argsort\<close> of the model.
  Its contract is \<open>is_argsort\<close>: the result lists every index of the array once, and
  reading the array through it gives ascending values. The source asks for the default
  kind of sort, which the library documents as not stable, so the contract says nothing
  about the order of equal values.
\<close>

definition is_argsort :: "real list \<Rightarrow> nat list \<Rightarrow> bool" where
  "is_argsort ts idx \<longleftrightarrow>
     length idx = length ts \<and> distinct idx \<and> list_all (\<lambda>k. k < length ts) idx \<and>
     sorted (map (\<lambda>k. ts ! k) idx)"

text \<open>
  Indexing an array by an index array, \<open>xs[sort_idx]\<close>: an index out of range raises
  \<open>IndexError\<close>.
\<close>

definition take_idx :: "'a list \<Rightarrow> nat list \<Rightarrow> error + 'a list" where
  "take_idx xs idx =
     (if list_all (\<lambda>k. k < length xs) idx then Inr (map (\<lambda>k. xs ! k) idx)
      else Inl IndexError)"

text \<open>An exception raised by one statement skips the statements after it.\<close>

definition and_then :: "error + 'a \<Rightarrow> ('a \<Rightarrow> error + 'b) \<Rightarrow> error + 'b" where
  "and_then r f = (case r of Inl e \<Rightarrow> Inl e | Inr x \<Rightarrow> f x)"

definition reorder :: "nat list \<Rightarrow> 'v columns \<Rightarrow> error + 'v columns" where
  "reorder sort_idx c =
     and_then (take_idx (times_arr c) sort_idx) (\<lambda>a1.
     and_then (take_idx (eventIDs c) sort_idx) (\<lambda>a2.
     and_then (take_idx (energies c) sort_idx) (\<lambda>a3.
     and_then (take_idx (posX c) sort_idx) (\<lambda>a4.
     and_then (take_idx (posY c) sort_idx) (\<lambda>a5.
     and_then (take_idx (posZ c) sort_idx) (\<lambda>a6.
     and_then (take_idx (volumeIDs c) sort_idx) (\<lambda>a7.
     and_then (take_idx (trackIDs c) sort_idx) (\<lambda>a8.
     and_then (take_idx (runIDs c) sort_idx) (\<lambda>a9.
       Inr \<lparr> times_arr = a1, eventIDs = a2, energies = a3, posX = a4, posY = a5,
             posZ = a6, volumeIDs = a7, trackIDs = a8, runIDs = a9 \<rparr>)))))))))"

text \<open>Lines 57 to 67: the sorted arrays, or the error raised while indexing.\<close>

definition sorted_branches :: "(real list \<Rightarrow> nat list) \<Rightarrow> 'v tree \<Rightarrow> error + 'v columns" where
  "sorted_branches argsort tr =
     (let branches = read_branches tr;
          sort_idx = argsort (times_arr branches)
      in reorder sort_idx branches)"

text \<open>The contract of the library call, at the array the function passes to it.\<close>

definition argsort_ok :: "(real list \<Rightarrow> nat list) \<Rightarrow> 'v tree \<Rightarrow> bool" where
  "argsort_ok argsort tr \<longleftrightarrow>
     is_argsort (times_arr (read_branches tr)) (argsort (times_arr (read_branches tr)))"

subsection \<open>Double precision arithmetic\<close>

text \<open>
  Rounding to the nearest integer, a tie going to the even one.
\<close>

definition round_even :: "real \<Rightarrow> int" where
  "round_even x =
     (let f = \<lfloor>x\<rfloor>; r = x - of_int f
      in if r < 1 / 2 then f else if r > 1 / 2 then f + 1
         else if even f then f else f + 1)"

text \<open>The exponent \<open>e\<close> with \<open>2^e \<le> |x| < 2^(e+1)\<close>, for \<open>x\<close> other than zero.\<close>

definition binade :: "real \<Rightarrow> int" where
  "binade x =
     (if 1 \<le> \<bar>x\<bar> then bitlen \<lfloor>\<bar>x\<bar>\<rfloor> - 1 else - bitlen (\<lceil>1 / \<bar>x\<bar>\<rceil> - 1))"

text \<open>
  The distance between neighbouring doubles around \<open>x\<close>: 52 fraction bits below the
  exponent, which is not smaller than \<open>-1022\<close> (below that the doubles are subnormal and
  equally spaced).
\<close>

definition quantum :: "real \<Rightarrow> real" where
  "quantum x = 2 powi (max (binade x) (- 1022) - 52)"

text \<open>The double nearest to a real number, and the two operations of the source on times.\<close>

definition round_f64 :: "real \<Rightarrow> real" where
  "round_f64 x = (if x = 0 then 0 else quantum x * of_int (round_even (x / quantum x)))"

definition f64_add :: "real \<Rightarrow> real \<Rightarrow> real" where
  "f64_add a b = round_f64 (a + b)"

definition f64_sub :: "real \<Rightarrow> real \<Rightarrow> real" where
  "f64_sub a b = round_f64 (a - b)"

subsection \<open>The time offset (line 70)\<close>

definition times_shifted :: "real \<Rightarrow> 'v columns \<Rightarrow> real list" where
  "times_shifted offset_ns c = map (\<lambda>t. f64_add t offset_ns) (times_arr c)"

subsection \<open>Finding coincidences (lines 73 to 123)\<close>

text \<open>The dictionary built at lines 91 to 116 from the records \<open>i\<close> and \<open>j\<close>.\<close>

definition coinc :: "'v columns \<Rightarrow> nat \<Rightarrow> nat \<Rightarrow> 'v coincidence" where
  "coinc c i j =
     \<lparr> time1 = times_arr c ! i, time2 = times_arr c ! j,
       eventID1 = eventIDs c ! i, eventID2 = eventIDs c ! j,
       energy1 = energies c ! i, energy2 = energies c ! j,
       globalPosX1 = posX c ! i, globalPosY1 = posY c ! i, globalPosZ1 = posZ c ! i,
       globalPosX2 = posX c ! j, globalPosY2 = posY c ! j, globalPosZ2 = posZ c ! j,
       volumeID1 = volumeIDs c ! i, volumeID2 = volumeIDs c ! j,
       runID = runIDs c ! i,
       trackID1 = trackIDs c ! i, trackID2 = trackIDs c ! j,
       comptonPhantom1 = 0, comptonPhantom2 = 0,
       RayleighPhantom1 = 0, RayleighPhantom2 = 0,
       sourceID1 = 0, sourceID2 = 0 \<rparr>"

text \<open>
  The inner loop \<open>for j in range(i + 1, n_singles)\<close>, entered at \<open>j\<close>. The result is the
  index at which a coincidence is stored before the \<open>break\<close> of line 118, or \<open>None\<close> when
  the loop ends by the \<open>break\<close> of line 121 or by running out of range. The arrays are
  only read at \<open>i\<close> and at \<open>j < n_singles\<close>.
\<close>

function scan_forward :: "'v columns \<Rightarrow> real list \<Rightarrow> real \<Rightarrow> nat \<Rightarrow> nat \<Rightarrow> nat option" where
  "scan_forward c ts time_window_ns i j =
     (if j < length (times_arr c) then
        (let time_diff = \<bar>f64_sub (ts ! j) (ts ! i)\<bar> in
         if time_diff \<le> time_window_ns then
           (if volumeIDs c ! i \<noteq> volumeIDs c ! j then Some j
            else scan_forward c ts time_window_ns i (Suc j))
         else if time_diff > time_window_ns then None
         else scan_forward c ts time_window_ns i (Suc j))
      else None)"
  by pat_completeness auto
termination
  by (relation "measure (\<lambda>(c, ts, w, i, j). length (times_arr c) - j)") auto

declare scan_forward.simps [simp del]

text \<open>
  The outer loop \<open>while i < n_singles - 1\<close>, entered at \<open>i\<close> with the list built so far.
  The comparison is on integers, as in the source, where \<open>n_singles - 1\<close> is \<open>-1\<close> for an
  empty input.
\<close>

function scan_singles ::
  "'v columns \<Rightarrow> real list \<Rightarrow> real \<Rightarrow> nat \<Rightarrow> 'v coincidence list \<Rightarrow> 'v coincidence list" where
  "scan_singles c ts time_window_ns i coincidences =
     (if int i < int (length (times_arr c)) - 1 then
        scan_singles c ts time_window_ns (Suc i)
          (case scan_forward c ts time_window_ns i (i + 1) of
             Some j \<Rightarrow> coincidences @ [coinc c i j]
           | None \<Rightarrow> coincidences)
      else coincidences)"
  by pat_completeness auto
termination
  by (relation "measure (\<lambda>(c, ts, w, i, acc). length (times_arr c) - i)") auto

declare scan_singles.simps [simp del]

text \<open>Lines 57 to 123: from the branches to the list \<open>coincidences\<close>.\<close>

definition find_coincidences ::
  "(real list \<Rightarrow> nat list) \<Rightarrow> 'v tree \<Rightarrow> real \<Rightarrow> real \<Rightarrow> error + 'v coincidence list" where
  "find_coincidences argsort tr time_window_ns offset_ns =
     (case sorted_branches argsort tr of
        Inl e \<Rightarrow> Inl e
      | Inr c \<Rightarrow> Inr (scan_singles c (times_shifted offset_ns c) time_window_ns 0 []))"

text \<open>The whole function: the table is written only when the list is not empty.\<close>

definition sort_coincidences ::
  "(real list \<Rightarrow> nat list) \<Rightarrow> 'v tree \<Rightarrow> real \<Rightarrow> real \<Rightarrow> error + 'v outcome" where
  "sort_coincidences argsort tr time_window_ns offset_ns =
     (case find_coincidences argsort tr time_window_ns offset_ns of
        Inl e \<Rightarrow> Inl e
      | Inr coincidences \<Rightarrow>
          Inr \<lparr> written = (if length coincidences > 0 then Some coincidences else None),
                returned = length coincidences \<rparr>)"

subsection \<open>The scan without the early exit\<close>

text \<open>
  The naive variant the specification compares the scan with: the same two loops, without
  the \<open>break\<close> of line 121, so that every \<open>j\<close> from \<open>i + 1\<close> to \<open>n_singles - 1\<close> is looked
  at until a coincidence is stored.
\<close>

function scan_forward_naive :: "'v columns \<Rightarrow> real list \<Rightarrow> real \<Rightarrow> nat \<Rightarrow> nat \<Rightarrow> nat option" where
  "scan_forward_naive c ts time_window_ns i j =
     (if j < length (times_arr c) then
        (let time_diff = \<bar>f64_sub (ts ! j) (ts ! i)\<bar> in
         if time_diff \<le> time_window_ns \<and> volumeIDs c ! i \<noteq> volumeIDs c ! j then Some j
         else scan_forward_naive c ts time_window_ns i (Suc j))
      else None)"
  by pat_completeness auto
termination
  by (relation "measure (\<lambda>(c, ts, w, i, j). length (times_arr c) - j)") auto

declare scan_forward_naive.simps [simp del]

function scan_singles_naive ::
  "'v columns \<Rightarrow> real list \<Rightarrow> real \<Rightarrow> nat \<Rightarrow> 'v coincidence list \<Rightarrow> 'v coincidence list" where
  "scan_singles_naive c ts time_window_ns i coincidences =
     (if int i < int (length (times_arr c)) - 1 then
        scan_singles_naive c ts time_window_ns (Suc i)
          (case scan_forward_naive c ts time_window_ns i (i + 1) of
             Some j \<Rightarrow> coincidences @ [coinc c i j]
           | None \<Rightarrow> coincidences)
      else coincidences)"
  by pat_completeness auto
termination
  by (relation "measure (\<lambda>(c, ts, w, i, acc). length (times_arr c) - i)") auto

declare scan_singles_naive.simps [simp del]

definition find_coincidences_naive ::
  "(real list \<Rightarrow> nat list) \<Rightarrow> 'v tree \<Rightarrow> real \<Rightarrow> real \<Rightarrow> error + 'v coincidence list" where
  "find_coincidences_naive argsort tr time_window_ns offset_ns =
     (case sorted_branches argsort tr of
        Inl e \<Rightarrow> Inl e
      | Inr c \<Rightarrow> Inr (scan_singles_naive c (times_shifted offset_ns c) time_window_ns 0 []))"

subsection \<open>Two sorts that meet the contract\<close>

text \<open>
  Two concrete index sorts, both built on the stable insertion sort of the library: the
  first keeps records of equal time in their original order; the second presents the
  indices in reverse first and so returns records of equal time in reverse order, for
  instance \<open>[3, 2, 1, 0]\<close> on the times \<open>[2, 1, 0, 0]\<close>.
\<close>

definition stable_argsort :: "real list \<Rightarrow> nat list" where
  "stable_argsort ts = sort_key (\<lambda>k. ts ! k) [0..<length ts]"

definition reversing_argsort :: "real list \<Rightarrow> nat list" where
  "reversing_argsort ts = sort_key (\<lambda>k. ts ! k) (rev [0..<length ts])"

subsection \<open>Inputs used as examples\<close>

text \<open>A single of detector \<open>det\<close> at time \<open>t\<close>, tagged by its event number.\<close>

definition hit :: "nat \<Rightarrow> real \<Rightarrow> int \<Rightarrow> nat single" where
  "hit det t ev =
     \<lparr> GlobalTime = t, EventID = ev, TotalEnergyDeposit = 511,
       PostPosition_X = 0, PostPosition_Y = 0, PostPosition_Z = 0,
       PostStepUniqueVolumeID = det, TrackID = 1, RunID = 7 \<rparr>"

definition tree_of :: "nat single list \<Rightarrow> nat tree" where
  "tree_of es = \<lparr> entries = es, has_RunID = True \<rparr>"


section \<open>Properties\<close>

subsection \<open>Rounding to double\<close>

lemma round_even_of_int [simp]: "round_even (of_int n) = n"
  by (simp add: round_even_def)

lemma round_even_mono: "x \<le> y \<Longrightarrow> round_even x \<le> round_even y"
proof -
  assume xy: "x \<le> y"
  then have fg: "\<lfloor>x\<rfloor> \<le> \<lfloor>y\<rfloor>" by (rule floor_mono)
  have ux: "round_even x \<le> \<lfloor>x\<rfloor> + 1" and lx: "\<lfloor>x\<rfloor> \<le> round_even x" for x
    by (simp_all add: round_even_def Let_def)
  show ?thesis
  proof (cases "\<lfloor>x\<rfloor> = \<lfloor>y\<rfloor>")
    case True
    with xy show ?thesis by (auto simp: round_even_def Let_def)
  next
    case False
    with fg have "\<lfloor>x\<rfloor> + 1 \<le> \<lfloor>y\<rfloor>" by simp
    with ux[of x] lx[of y] show ?thesis by linarith
  qed
qed

lemma binade_bounds:
  assumes "x \<noteq> 0"
  shows "2 powi binade x \<le> \<bar>x\<bar> \<and> \<bar>x\<bar> < 2 powi (binade x + 1)"
proof (cases "1 \<le> \<bar>x\<bar>")
  case True
  let ?n = "\<lfloor>\<bar>x\<bar>\<rfloor>"
  from True have n: "0 < ?n" by simp
  from bitlen_bounds[OF n] have lo: "2 ^ nat (bitlen ?n - 1) \<le> ?n" and hi: "?n < 2 ^ nat (bitlen ?n)"
    by simp_all
  from n have b: "1 \<le> bitlen ?n" by (simp add: bitlen_alt_def)
  have e: "binade x = bitlen ?n - 1" using True by (simp add: binade_def)
  have "(2::real) powi binade x = 2 ^ nat (bitlen ?n - 1)"
    using b by (simp add: e power_int_def)
  also have "\<dots> = of_int (2 ^ nat (bitlen ?n - 1))" by simp
  also have "\<dots> \<le> of_int ?n" using lo by (simp only: of_int_le_iff)
  also have "\<dots> \<le> \<bar>x\<bar>" by simp
  finally have l: "2 powi binade x \<le> \<bar>x\<bar>" .
  from hi have "?n + 1 \<le> 2 ^ nat (bitlen ?n)" by simp
  then have "of_int (?n + 1) \<le> (of_int (2 ^ nat (bitlen ?n)) :: real)" by (simp only: of_int_le_iff)
  then have "of_int ?n + 1 \<le> (2::real) ^ nat (bitlen ?n)" by simp
  moreover have "\<bar>x\<bar> < of_int ?n + 1" by linarith
  ultimately have "\<bar>x\<bar> < 2 ^ nat (bitlen ?n)" by linarith
  also have "\<dots> = 2 powi (binade x + 1)" using b by (simp add: e power_int_def)
  finally show ?thesis using l by simp
next
  case False
  with assms have x: "0 < \<bar>x\<bar>" "\<bar>x\<bar> < 1" by simp_all
  let ?y = "1 / \<bar>x\<bar>"
  let ?m = "\<lceil>?y\<rceil> - 1"
  from x have y: "1 < ?y" by simp
  then have m: "0 < ?m" by simp
  have my: "of_int ?m < ?y" "?y \<le> of_int ?m + 1" by linarith+
  from bitlen_bounds[OF m] have lo: "2 ^ nat (bitlen ?m - 1) \<le> ?m" and hi: "?m < 2 ^ nat (bitlen ?m)"
    by simp_all
  from m have b: "1 \<le> bitlen ?m" by (simp add: bitlen_alt_def)
  have e: "binade x = - bitlen ?m" using False by (simp add: binade_def)
  from hi have "?m + 1 \<le> 2 ^ nat (bitlen ?m)" by simp
  then have "of_int (?m + 1) \<le> (of_int (2 ^ nat (bitlen ?m)) :: real)" by (simp only: of_int_le_iff)
  then have "of_int ?m + 1 \<le> (2::real) ^ nat (bitlen ?m)"
    by (simp only: of_int_add of_int_1 of_int_power of_int_numeral)
  with my(2) have "?y \<le> 2 ^ nat (bitlen ?m)" by linarith
  then have "1 / 2 ^ nat (bitlen ?m) \<le> \<bar>x\<bar>" using x by (simp add: field_simps)
  moreover have "(2::real) powi binade x = 1 / 2 ^ nat (bitlen ?m)"
    using b by (simp add: e power_int_def field_simps)
  ultimately have l: "2 powi binade x \<le> \<bar>x\<bar>" by simp
  have "(of_int (2 ^ nat (bitlen ?m - 1)) :: real) \<le> of_int ?m" using lo by (simp only: of_int_le_iff)
  then have "(2::real) ^ nat (bitlen ?m - 1) \<le> of_int ?m"
    by (simp only: of_int_power of_int_numeral)
  with my(1) have "2 ^ nat (bitlen ?m - 1) < ?y" by linarith
  then have "\<bar>x\<bar> < 1 / 2 ^ nat (bitlen ?m - 1)" using x by (simp add: field_simps)
  moreover have "(2::real) powi (binade x + 1) = 1 / 2 ^ nat (bitlen ?m - 1)"
  proof -
    define j where "j = bitlen ?m - 1"
    have j: "0 \<le> j" using b by (simp add: j_def)
    have "binade x + 1 = - j" by (simp add: e j_def)
    then have "(2::real) powi (binade x + 1) = inverse (2 powi j)"
      by (simp only: power_int_minus)
    also have "(2::real) powi j = 2 ^ nat j" using j by (simp add: power_int_def)
    finally show ?thesis by (simp add: j_def inverse_eq_divide)
  qed
  ultimately show ?thesis using l by simp
qed

lemma pow2_less_exp: "(2::real) powi m < 2 powi n \<Longrightarrow> m < n"
proof (rule ccontr)
  assume a: "(2::real) powi m < 2 powi n" and "\<not> m < n"
  then have "n \<le> m" by simp
  then have "(2::real) powi n \<le> 2 powi m" by (rule power_int_increasing) simp
  with a show False by simp
qed


lemma binade_mono:
  assumes "x \<noteq> 0" "\<bar>x\<bar> \<le> \<bar>y\<bar>"
  shows "binade x \<le> binade y"
proof -
  from assms have "y \<noteq> 0" by auto
  from binade_bounds[OF assms(1)] binade_bounds[OF this] assms(2)
  have "(2::real) powi binade x < 2 powi (binade y + 1)" by linarith
  then have "binade x < binade y + 1" by (rule pow2_less_exp)
  then show ?thesis by simp
qed

text \<open>The exponent actually used, and the spacing of the doubles around x.\<close>

lemma quantum_pos [simp]: "0 < quantum x"
  by (simp add: quantum_def)

lemma round_f64_zero [simp]: "round_f64 0 = 0"
  by (simp add: round_f64_def)

text \<open>A multiple of the quantum below (above) x stays below (above) the rounded x.\<close>

lemma round_f64_lower:
  assumes "x \<noteq> 0" "quantum x * of_int k \<le> x"
  shows "quantum x * of_int k \<le> round_f64 x"
proof -
  from assms(2) have "of_int k \<le> x / quantum x"
    by (simp add: field_simps)
  from round_even_mono[OF this] have "k \<le> round_even (x / quantum x)" by simp
  then have "(of_int k :: real) \<le> of_int (round_even (x / quantum x))" by (simp only: of_int_le_iff)
  then show ?thesis using assms(1) by (simp add: round_f64_def)
qed

lemma round_f64_upper:
  assumes "x \<noteq> 0" "x \<le> quantum x * of_int k"
  shows "round_f64 x \<le> quantum x * of_int k"
proof -
  from assms(2) have "x / quantum x \<le> of_int k"
    by (simp add: field_simps)
  from round_even_mono[OF this] have "round_even (x / quantum x) \<le> k" by simp
  then have "(of_int (round_even (x / quantum x)) :: real) \<le> of_int k" by (simp only: of_int_le_iff)
  then show ?thesis using assms(1) by (simp add: round_f64_def)
qed

lemma round_f64_nonneg: "0 \<le> x \<Longrightarrow> 0 \<le> round_f64 x"
  using round_f64_lower[of x 0] by (cases "x = 0") simp_all

lemma round_f64_nonpos: "x \<le> 0 \<Longrightarrow> round_f64 x \<le> 0"
  using round_f64_upper[of x 0] by (cases "x = 0") simp_all

text \<open>A power of two at or above the binade of x is a multiple of the quantum of x.\<close>

lemma pow2_multiple:
  assumes "max (binade x) (- 1022) \<le> e + 52"
  shows "\<exists>k. 0 < k \<and> (2::real) powi e = quantum x * of_int k"
proof -
  let ?d = "e + 52 - max (binade x) (- 1022)"
  from assms have d: "0 \<le> ?d" by simp
  have "(2::real) powi e = 2 powi (max (binade x) (- 1022) - 52) * 2 powi ?d"
    by (simp add: power_int_add[symmetric])
  also have "(2::real) powi ?d = of_int (2 ^ nat ?d)" using d by (simp add: power_int_def)
  finally have "(2::real) powi e = quantum x * of_int (2 ^ nat ?d)" by (simp add: quantum_def)
  moreover have "(0::int) < 2 ^ nat ?d" by simp
  ultimately show ?thesis by blast
qed

lemma round_f64_mono_pos:
  assumes "0 < x" "x \<le> y"
  shows "round_f64 x \<le> round_f64 y"
proof -
  let ?ex = "max (binade x) (- 1022)" and ?ey = "max (binade y) (- 1022)"
  from assms have nz: "x \<noteq> 0" "y \<noteq> 0" and ab: "\<bar>x\<bar> \<le> \<bar>y\<bar>" by simp_all
  from binade_mono[OF nz(1) ab] have le: "?ex \<le> ?ey" by simp
  show ?thesis
  proof (cases "?ex = ?ey")
    case True
    then have q: "quantum x = quantum y" by (simp add: quantum_def)
    from assms(2) have "x / quantum y \<le> y / quantum y"
      by (intro divide_right_mono less_imp_le[OF quantum_pos])
    from round_even_mono[OF this]
    have "(of_int (round_even (x / quantum y)) :: real) \<le> of_int (round_even (y / quantum y))"
      by (simp only: of_int_le_iff)
    then show ?thesis using nz q by (simp add: round_f64_def)
  next
    case False
    with le have lt: "?ex < ?ey" by linarith
    then have ey: "?ey = binade y" and bx: "binade x + 1 \<le> binade y"
      by linarith+
    let ?T = "(2::real) powi binade y"
    from pow2_multiple[of x "binade y"] lt ey obtain k where k: "?T = quantum x * of_int k"
      by auto
    from pow2_multiple[of y "binade y"] ey obtain m where m: "?T = quantum y * of_int m"
      by auto
    from binade_bounds[OF nz(1)] assms(1) have "x < 2 powi (binade x + 1)" by simp
    also have "\<dots> \<le> ?T" using bx by (intro power_int_increasing) simp_all
    finally have "x \<le> quantum x * of_int k" using k by simp
    from round_f64_upper[OF nz(1) this] have "round_f64 x \<le> ?T" using k by simp
    moreover from binade_bounds[OF nz(2)] assms have "quantum y * of_int m \<le> y" using m by simp
    from round_f64_lower[OF nz(2) this] have "?T \<le> round_f64 y" using m by simp
    ultimately show ?thesis by simp
  qed
qed

lemma round_f64_mono_neg:
  assumes "y < 0" "x \<le> y"
  shows "round_f64 x \<le> round_f64 y"
proof -
  let ?ex = "max (binade x) (- 1022)" and ?ey = "max (binade y) (- 1022)"
  from assms have nz: "x \<noteq> 0" "y \<noteq> 0" and ab: "\<bar>y\<bar> \<le> \<bar>x\<bar>" by simp_all
  from binade_mono[OF nz(2) ab] have le: "?ey \<le> ?ex" by simp
  show ?thesis
  proof (cases "?ex = ?ey")
    case True
    then have q: "quantum x = quantum y" by (simp add: quantum_def)
    from assms(2) have "x / quantum y \<le> y / quantum y"
      by (intro divide_right_mono less_imp_le[OF quantum_pos])
    from round_even_mono[OF this]
    have "(of_int (round_even (x / quantum y)) :: real) \<le> of_int (round_even (y / quantum y))"
      by (simp only: of_int_le_iff)
    then show ?thesis using nz q by (simp add: round_f64_def)
  next
    case False
    with le have lt: "?ey < ?ex" by linarith
    then have ex: "?ex = binade x" and bx: "binade y + 1 \<le> binade x"
      by linarith+
    let ?T = "(2::real) powi binade x"
    from pow2_multiple[of y "binade x"] lt ex obtain k where k: "?T = quantum y * of_int k"
      by auto
    from pow2_multiple[of x "binade x"] ex obtain m where m: "?T = quantum x * of_int m"
      by auto
    from binade_bounds[OF nz(1)] assms have "x \<le> - ?T" by simp
    then have "x \<le> quantum x * of_int (- m)" using m by simp
    from round_f64_upper[OF nz(1) this] have "round_f64 x \<le> - ?T" using m by simp
    moreover
    from binade_bounds[OF nz(2)] assms(1) have "- (2 powi (binade y + 1)) < y" by simp
    moreover have "(2::real) powi (binade y + 1) \<le> ?T" using bx by (intro power_int_increasing) simp_all
    ultimately have "quantum y * of_int (- k) \<le> y" using k by simp
    from round_f64_lower[OF nz(2) this] have "- ?T \<le> round_f64 y" using k by simp
    with \<open>round_f64 x \<le> - ?T\<close> show ?thesis by simp
  qed
qed

lemma round_f64_mono: "x \<le> y \<Longrightarrow> round_f64 x \<le> round_f64 y"
proof -
  assume xy: "x \<le> y"
  consider "0 < x" | "y < 0" | "x \<le> 0" "0 \<le> y" by linarith
  then show ?thesis
  proof cases
    case 1 then show ?thesis using xy by (rule round_f64_mono_pos)
  next
    case 2 then show ?thesis using xy by (rule round_f64_mono_neg)
  next
    case 3
    from round_f64_nonpos[OF 3(1)] round_f64_nonneg[OF 3(2)] show ?thesis by simp
  qed
qed

text \<open>Integers below 2^53 in magnitude are doubles.\<close>

lemma round_f64_of_int:
  assumes "\<bar>n\<bar> < 2 ^ 53"
  shows "round_f64 (of_int n) = of_int n"
proof (cases "n = 0")
  case True
  then show ?thesis by simp
next
  case False
  let ?x = "of_int n :: real"
  from False have nz: "?x \<noteq> 0" by simp
  from assms have "\<bar>?x\<bar> < of_int (2 ^ 53)" by (simp only: of_int_abs[symmetric] of_int_less_iff)
  then have "\<bar>?x\<bar> < 2 powi 53" by simp
  with binade_bounds[OF nz] have "(2::real) powi binade ?x < 2 powi 53" by linarith
  then have "binade ?x < 53" by (rule pow2_less_exp)
  then have "max (binade ?x) (- 1022) \<le> 0 + 52" by simp
  from pow2_multiple[OF this] obtain k where k: "0 < k" "(1::real) = quantum ?x * of_int k"
    by auto
  have qnz: "quantum ?x \<noteq> 0" by (simp add: quantum_def)
  have "1 / quantum ?x = quantum ?x * of_int k / quantum ?x" using k(2) by simp
  also have "\<dots> = of_int k" using qnz by simp
  finally have inv: "1 / quantum ?x = of_int k" .
  have "?x / quantum ?x = ?x * (1 / quantum ?x)" by simp
  also have "\<dots> = of_int (n * k)" by (simp only: inv of_int_mult)
  finally have z: "?x / quantum ?x = of_int (n * k)" .
  have "quantum ?x * of_int (n * k) = ?x * (quantum ?x * of_int k)" by simp
  also have "\<dots> = ?x" by (simp only: k(2)[symmetric] mult_1_right)
  finally show ?thesis using nz
    by (simp only: round_f64_def z round_even_of_int if_False)
qed

lemma round_f64_numeral [simp]:
  "numeral n < (2::int) ^ 53 \<Longrightarrow> round_f64 (numeral n) = numeral n"
  using round_f64_of_int[of "numeral n"] by simp

lemma round_f64_one [simp]: "round_f64 1 = 1"
  using round_f64_of_int[of 1] by simp


lemma round_f64_neg_numeral [simp]:
  "numeral n < (2::int) ^ 53 \<Longrightarrow> round_f64 (- numeral n) = - numeral n"
  using round_f64_of_int[of "- numeral n"] by simp

text \<open>The difference of two ascending times is rounded to a non-negative double.\<close>

lemma f64_sub_nonneg: "a \<le> b \<Longrightarrow> 0 \<le> f64_sub b a"
  by (simp add: f64_sub_def round_f64_nonneg)

lemma f64_sub_mono: "b \<le> b' \<Longrightarrow> f64_sub b a \<le> f64_sub b' a"
  by (simp add: f64_sub_def round_f64_mono)




subsection \<open>The index sort\<close>

lemma is_argsort_stable: "is_argsort ts (stable_argsort ts)"
  by (simp add: is_argsort_def stable_argsort_def list_all_iff)

lemma is_argsort_reversing: "is_argsort ts (reversing_argsort ts)"
  by (simp add: is_argsort_def reversing_argsort_def list_all_iff)

lemma is_argsort_set:
  assumes "is_argsort ts idx"
  shows "set idx = {0..<length ts}"
proof -
  from assms have "set idx \<subseteq> {0..<length ts}"
    by (auto simp: is_argsort_def list_all_iff)
  moreover from assms have "card (set idx) = card {0..<length ts}"
    by (simp add: is_argsort_def distinct_card)
  ultimately show ?thesis by (simp add: card_subset_eq)
qed

lemma is_argsort_mset:
  assumes "is_argsort ts idx"
  shows "mset idx = mset [0..<length ts]"
proof -
  from assms have "mset_set (set idx) = mset idx"
    by (simp add: mset_set_set is_argsort_def)
  then show ?thesis using is_argsort_set[OF assms] by simp
qed

lemma is_argsort_permutes:
  assumes "is_argsort ts idx" "length xs = length ts"
  shows "mset (map (\<lambda>k. xs ! k) idx) = mset xs"
proof -
  have "mset (map (\<lambda>k. xs ! k) idx) = image_mset (\<lambda>k. xs ! k) (mset idx)" by simp
  also have "\<dots> = image_mset (\<lambda>k. xs ! k) (mset [0..<length xs])"
    using is_argsort_mset[OF assms(1)] assms(2) by simp
  also have "\<dots> = mset (map (\<lambda>k. xs ! k) [0..<length xs])" by simp
  also have "\<dots> = mset xs" by (simp add: map_nth)
  finally show ?thesis .
qed

text \<open>On strictly ascending times every sort that meets the contract returns the identity.\<close>

lemma is_argsort_strict:
  assumes "is_argsort ts idx" "sorted ts" "distinct ts"
  shows "idx = [0..<length ts]"
proof -
  have len: "length idx = length ts" using assms(1) by (simp add: is_argsort_def)
  have srt: "sorted (map (\<lambda>k. ts ! k) idx)" using assms(1) by (simp add: is_argsort_def)
  have "mset (map (\<lambda>k. ts ! k) idx) = mset ts" by (rule is_argsort_permutes[OF assms(1) refl])
  then have "sort ts = map (\<lambda>k. ts ! k) idx" using srt by (rule properties_for_sort)
  then have eq: "map (\<lambda>k. ts ! k) idx = ts" using assms(2) by (simp add: sorted_sort_id)
  have bound: "\<And>k. k < length ts \<Longrightarrow> idx ! k < length ts"
    using assms(1) len by (simp add: is_argsort_def list_all_length)
  show ?thesis
  proof (rule nth_equalityI)
    show "length idx = length [0..<length ts]" using len by simp
  next
    fix k assume "k < length idx"
    then have k: "k < length ts" using len by simp
    have "map (\<lambda>k. ts ! k) idx ! k = ts ! k" using eq by simp
    then have "ts ! (idx ! k) = ts ! k" using k len by simp
    then have "idx ! k = k" using assms(3) k bound[OF k] by (simp add: nth_eq_iff_index_eq)
    then show "idx ! k = [0..<length ts] ! k" using k by simp
  qed
qed

subsection \<open>The reordered arrays\<close>

lemma map_nth_map:
  "list_all (\<lambda>k. k < length xs) idx \<Longrightarrow>
   map (\<lambda>k. map f xs ! k) idx = map f (map (\<lambda>k. xs ! k) idx)"
  by (simp add: list_all_iff)

text \<open>
  Under the contract no index is out of range, and the nine reordered arrays are the
  branches of the tree whose entries are the original entries taken in the order of the
  index array.
\<close>

lemma sorted_branches_eq:
  assumes "argsort_ok argsort tr"
  shows "sorted_branches argsort tr =
     Inr (read_branches
           (tr\<lparr>entries := map (\<lambda>k. entries tr ! k) (argsort (map GlobalTime (entries tr)))\<rparr>))"
proof -
  let ?idx = "argsort (map GlobalTime (entries tr))"
  from assms have a: "is_argsort (map GlobalTime (entries tr)) ?idx"
    by (simp add: argsort_ok_def read_branches_def)
  then have all: "list_all (\<lambda>k. k < length (entries tr)) ?idx"
    and len: "length ?idx = length (entries tr)"
    by (simp_all add: is_argsort_def)
  have rep: "map (\<lambda>k. replicate (length (entries tr)) (0::int) ! k) ?idx =
             replicate (length (entries tr)) 0"
    using all len by (auto simp: list_all_iff intro!: nth_equalityI)
  show ?thesis
    using all rep
    by (simp add: sorted_branches_def reorder_def read_branches_def Let_def take_idx_def
        and_then_def map_nth_map len)
qed

lemma sorted_branches_props:
  assumes "argsort_ok argsort tr"
  shows "\<exists>c. sorted_branches argsort tr = Inr c \<and>
             length (times_arr c) = length (entries tr) \<and> sorted (times_arr c)"
proof -
  let ?idx = "argsort (map GlobalTime (entries tr))"
  from assms have a: "is_argsort (map GlobalTime (entries tr)) ?idx"
    by (simp add: argsort_ok_def read_branches_def)
  then have all: "list_all (\<lambda>k. k < length (entries tr)) ?idx"
    and len: "length ?idx = length (entries tr)"
    and srt: "sorted (map (\<lambda>k. map GlobalTime (entries tr) ! k) ?idx)"
    by (simp_all add: is_argsort_def)
  from srt all have "sorted (map GlobalTime (map (\<lambda>k. entries tr ! k) ?idx))"
    by (simp add: map_nth_map)
  then show ?thesis
    using sorted_branches_eq[OF assms] len by (simp add: read_branches_def)
qed


lemma sorted_times_shifted:
  "sorted (times_arr c) \<Longrightarrow> sorted (times_shifted d c)"
  by (auto simp: times_shifted_def f64_add_def sorted_iff_nth_mono intro!: round_f64_mono)

subsection \<open>The two loops\<close>

text \<open>What is known of the index at which the inner loop stores a coincidence.\<close>

lemma scan_forward_Some:
  "scan_forward c ts W i j = Some k \<Longrightarrow>
     j \<le> k \<and> k < length (times_arr c) \<and> \<bar>f64_sub (ts ! k) (ts ! i)\<bar> \<le> W \<and>
     volumeIDs c ! i \<noteq> volumeIDs c ! k \<and>
     (\<forall>m. j \<le> m \<and> m < k \<longrightarrow> \<bar>f64_sub (ts ! m) (ts ! i)\<bar> \<le> W \<and> volumeIDs c ! i = volumeIDs c ! m)"
proof (induction c ts W i j rule: scan_forward.induct)
  case (1 c ts W i j)
  show ?case
  proof (cases "j < length (times_arr c) \<and> \<bar>f64_sub (ts ! j) (ts ! i)\<bar> \<le> W \<and>
                volumeIDs c ! i = volumeIDs c ! j")
    case True
    with "1.prems" have r: "scan_forward c ts W i (Suc j) = Some k"
      by (subst (asm) scan_forward.simps) simp
    from "1.IH"(1)[OF _ refl _ _ r] True
    have ih: "Suc j \<le> k \<and> k < length (times_arr c) \<and> \<bar>f64_sub (ts ! k) (ts ! i)\<bar> \<le> W \<and>
       volumeIDs c ! i \<noteq> volumeIDs c ! k \<and>
       (\<forall>m. Suc j \<le> m \<and> m < k \<longrightarrow>
            \<bar>f64_sub (ts ! m) (ts ! i)\<bar> \<le> W \<and> volumeIDs c ! i = volumeIDs c ! m)"
      by simp
    have "\<And>m. j \<le> m \<Longrightarrow> m = j \<or> Suc j \<le> m" by arith
    with ih True show ?thesis by (metis Suc_leD)
  next
    case False
    with "1.prems" have "k = j \<and> j < length (times_arr c) \<and> \<bar>f64_sub (ts ! j) (ts ! i)\<bar> \<le> W \<and>
        volumeIDs c ! i \<noteq> volumeIDs c ! j"
      by (subst (asm) scan_forward.simps) (auto simp: Let_def split: if_splits)
    then show ?thesis by auto
  qed
qed

text \<open>On ascending times the computed difference grows with the index.\<close>

lemma sorted_between:
  fixes ts :: "real list"
  assumes "sorted ts" "i \<le> m" "m \<le> k" "k < length ts"
  shows "\<bar>f64_sub (ts ! m) (ts ! i)\<bar> \<le> \<bar>f64_sub (ts ! k) (ts ! i)\<bar>"
proof -
  from assms have "ts ! i \<le> ts ! m" "ts ! m \<le> ts ! k"
    by (simp_all add: sorted_nth_mono)
  then have "0 \<le> f64_sub (ts ! m) (ts ! i)" "f64_sub (ts ! m) (ts ! i) \<le> f64_sub (ts ! k) (ts ! i)"
    by (simp_all add: f64_sub_nonneg f64_sub_mono)
  then show ?thesis by simp
qed

text \<open>
  On ascending times the inner loop returns the first index from \<open>j\<close> on that is inside
  the window and on another detector: once one record is outside the window, all later
  ones are.
\<close>

lemma scan_forward_sorted:
  "sorted ts \<Longrightarrow> length ts = length (times_arr c) \<Longrightarrow> i \<le> j \<Longrightarrow>
   scan_forward c ts W i j =
     List.find (\<lambda>k. \<bar>f64_sub (ts ! k) (ts ! i)\<bar> \<le> W \<and> volumeIDs c ! i \<noteq> volumeIDs c ! k)
       [j..<length (times_arr c)]"
proof (induction c ts W i j rule: scan_forward.induct)
  case (1 c ts W i j)
  let ?n = "length (times_arr c)"
  let ?P = "\<lambda>k. \<bar>f64_sub (ts ! k) (ts ! i)\<bar> \<le> W \<and> volumeIDs c ! i \<noteq> volumeIDs c ! k"
  show ?case
  proof (cases "j < ?n")
    case False
    then show ?thesis by (subst scan_forward.simps) simp
  next
    case jn: True
    then have upt: "[j..<?n] = j # [Suc j..<?n]" by (simp add: upt_conv_Cons)
    show ?thesis
    proof (cases "\<bar>f64_sub (ts ! j) (ts ! i)\<bar> \<le> W")
      case True
      show ?thesis
      proof (cases "volumeIDs c ! i = volumeIDs c ! j")
        case same: True
        from "1.IH"(1)[OF jn refl True _ "1.prems"(1,2)] same "1.prems"(3)
        have "scan_forward c ts W i (Suc j) = List.find ?P [Suc j..<?n]" by simp
        with jn True same show ?thesis
          by (subst scan_forward.simps) (simp add: upt)
      next
        case False
        with jn True show ?thesis
          by (subst scan_forward.simps) (simp add: upt)
      qed
    next
      case far: False
      have "\<not> ?P k" if "k \<in> set [j..<?n]" for k
      proof -
        from that have k: "j \<le> k" "k < length ts" using "1.prems"(2) by auto
        from sorted_between[OF "1.prems"(1,3) k] far show ?thesis by simp
      qed
      then have "List.find ?P [j..<?n] = None" by (simp add: find_None_iff)
      with jn far show ?thesis
        by (subst scan_forward.simps) simp
    qed
  qed
qed


text \<open>
  The outer loop visits \<open>i = 0, ..., n_singles - 2\<close> in order and appends at most one
  coincidence for each.
\<close>

lemma scan_singles_eq:
  "scan_singles c ts W i acc =
     acc @ List.map_filter (\<lambda>i. map_option (coinc c i) (scan_forward c ts W i (i + 1)))
             [i..<length (times_arr c) - 1]"
proof (induction c ts W i acc rule: scan_singles.induct)
  case (1 c ts W i acc)
  show ?case
  proof (cases "int i < int (length (times_arr c)) - 1")
    case False
    then show ?thesis by (subst scan_singles.simps) simp
  next
    case True
    then have lt: "i < length (times_arr c) - 1" by linarith
    then have upt: "[i..<length (times_arr c) - 1] = i # [Suc i..<length (times_arr c) - 1]"
      by (simp add: upt_conv_Cons)
    show ?thesis
      apply (subst scan_singles.simps)
      apply (simp only: True if_True "1.IH"[OF True])
      apply (simp add: upt[simplified] split: option.splits)
      done
  qed
qed

lemma in_set_map_filter:
  "x \<in> set (List.map_filter f xs) \<longleftrightarrow> (\<exists>i\<in>set xs. f i = Some x)"
  by (induction xs) (auto split: option.splits)

lemma find_coincidences_Inr:
  "sorted_branches argsort tr = Inr c \<Longrightarrow>
   find_coincidences argsort tr W d =
     Inr (List.map_filter
           (\<lambda>i. map_option (coinc c i) (scan_forward c (times_shifted d c) W i (i + 1)))
           [0..<length (times_arr c) - 1])"
  by (simp add: find_coincidences_def scan_singles_eq)

text \<open>Every coincidence in the list was stored by the inner loop for some \<open>i\<close>.\<close>

lemma emitted_origin:
  assumes "sorted_branches argsort tr = Inr c"
    and "find_coincidences argsort tr W d = Inr cs" and "x \<in> set cs"
  shows "\<exists>i j. i + 1 < length (times_arr c) \<and>
           scan_forward c (times_shifted d c) W i (i + 1) = Some j \<and> x = coinc c i j"
proof -
  from assms(2,3) find_coincidences_Inr[OF assms(1), of W d]
  obtain i where i: "i \<in> set [0..<length (times_arr c) - 1]"
    and "map_option (coinc c i) (scan_forward c (times_shifted d c) W i (i + 1)) = Some x"
    by (auto simp: in_set_map_filter)
  then obtain j where "scan_forward c (times_shifted d c) W i (i + 1) = Some j"
    and "x = coinc c i j"
    by auto
  moreover from i have "i + 1 < length (times_arr c)" by auto
  ultimately show ?thesis by blast
qed

text \<open>The converse: the first record that qualifies is the one stored.\<close>

lemma scan_forward_first:
  "j \<le> k \<Longrightarrow> k < length (times_arr c) \<Longrightarrow> \<bar>f64_sub (ts ! k) (ts ! i)\<bar> \<le> W \<Longrightarrow>
   volumeIDs c ! i \<noteq> volumeIDs c ! k \<Longrightarrow>
   (\<And>m. j \<le> m \<Longrightarrow> m < k \<Longrightarrow> \<bar>f64_sub (ts ! m) (ts ! i)\<bar> \<le> W \<and> volumeIDs c ! i = volumeIDs c ! m) \<Longrightarrow>
   scan_forward c ts W i j = Some k"
proof (induction c ts W i j rule: scan_forward.induct)
  case (1 c ts W i j)
  have jn: "j < length (times_arr c)" using "1.prems"(1,2) by simp
  show ?case
  proof (cases "j = k")
    case True
    with "1.prems"(2,3,4) show ?thesis
      by (subst scan_forward.simps) simp
  next
    case False
    with "1.prems"(1) have lt: "j < k" by simp
    from "1.prems"(5)[OF le_refl lt]
    have here: "\<bar>f64_sub (ts ! j) (ts ! i)\<bar> \<le> W" "volumeIDs c ! i = volumeIDs c ! j" by simp_all
    have "scan_forward c ts W i (Suc j) = Some k"
    proof (rule "1.IH"(1)[OF jn refl here(1)])
      show "\<not> volumeIDs c ! i \<noteq> volumeIDs c ! j" using here(2) by simp
      show "Suc j \<le> k" using lt by simp
      show "k < length (times_arr c)" by (rule "1.prems"(2))
      show "\<bar>f64_sub (ts ! k) (ts ! i)\<bar> \<le> W" by (rule "1.prems"(3))
      show "volumeIDs c ! i \<noteq> volumeIDs c ! k" by (rule "1.prems"(4))
      show "\<bar>f64_sub (ts ! m) (ts ! i)\<bar> \<le> W \<and> volumeIDs c ! i = volumeIDs c ! m"
        if "Suc j \<le> m" "m < k" for m
        using "1.prems"(5)[of m] that by simp
    qed
    with jn here show ?thesis
      by (subst scan_forward.simps) simp
  qed
qed

text \<open>On ascending times the stored index is the least one that qualifies.\<close>

lemma scan_forward_least:
  assumes "sorted ts" "length ts = length (times_arr c)"
  shows "scan_forward c ts W i (i + 1) = Some j \<longleftrightarrow>
     i < j \<and> j < length (times_arr c) \<and>
     \<bar>f64_sub (ts ! j) (ts ! i)\<bar> \<le> W \<and> volumeIDs c ! i \<noteq> volumeIDs c ! j \<and>
     (\<forall>k. i < k \<and> k < j \<longrightarrow> \<not> (\<bar>f64_sub (ts ! k) (ts ! i)\<bar> \<le> W \<and> volumeIDs c ! i \<noteq> volumeIDs c ! k))"
  (is "?L \<longleftrightarrow> ?R")
proof
  assume ?L
  from scan_forward_Some[OF this] show ?R by auto
next
  assume r: ?R
  show ?L
  proof (rule scan_forward_first)
    show "i + 1 \<le> j" "j < length (times_arr c)" "\<bar>f64_sub (ts ! j) (ts ! i)\<bar> \<le> W"
      "volumeIDs c ! i \<noteq> volumeIDs c ! j" using r by auto
    fix m assume m: "i + 1 \<le> m" "m < j"
    with r assms(2) have "\<bar>f64_sub (ts ! m) (ts ! i)\<bar> \<le> \<bar>f64_sub (ts ! j) (ts ! i)\<bar>"
      by (intro sorted_between[OF assms(1)]) auto
    with r have "\<bar>f64_sub (ts ! m) (ts ! i)\<bar> \<le> W" by linarith
    moreover from r m have "\<not> (\<bar>f64_sub (ts ! m) (ts ! i)\<bar> \<le> W \<and> volumeIDs c ! i \<noteq> volumeIDs c ! m)"
      by auto
    ultimately show "\<bar>f64_sub (ts ! m) (ts ! i)\<bar> \<le> W \<and> volumeIDs c ! i = volumeIDs c ! m" by blast
  qed
qed

subsection \<open>The loops of the naive variant\<close>

lemma scan_forward_naive_find:
  "scan_forward_naive c ts W i j =
     List.find (\<lambda>k. \<bar>f64_sub (ts ! k) (ts ! i)\<bar> \<le> W \<and> volumeIDs c ! i \<noteq> volumeIDs c ! k)
       [j..<length (times_arr c)]"
proof (induction c ts W i j rule: scan_forward_naive.induct)
  case (1 c ts W i j)
  show ?case
  proof (cases "j < length (times_arr c)")
    case False
    then show ?thesis by (subst scan_forward_naive.simps) simp
  next
    case True
    then have upt: "[j..<length (times_arr c)] = j # [Suc j..<length (times_arr c)]"
      by (simp add: upt_conv_Cons)
    show ?thesis
      using True "1.IH"[OF True refl]
      by (subst scan_forward_naive.simps) (simp add: upt Let_def)
  qed
qed

lemma scan_singles_naive_eq:
  "scan_singles_naive c ts W i acc =
     acc @ List.map_filter (\<lambda>i. map_option (coinc c i) (scan_forward_naive c ts W i (i + 1)))
             [i..<length (times_arr c) - 1]"
proof (induction c ts W i acc rule: scan_singles_naive.induct)
  case (1 c ts W i acc)
  show ?case
  proof (cases "int i < int (length (times_arr c)) - 1")
    case False
    then show ?thesis by (subst scan_singles_naive.simps) simp
  next
    case True
    then have lt: "i < length (times_arr c) - 1" by linarith
    then have upt: "[i..<length (times_arr c) - 1] = i # [Suc i..<length (times_arr c) - 1]"
      by (simp add: upt_conv_Cons)
    show ?thesis
      apply (subst scan_singles_naive.simps)
      apply (simp only: True if_True "1.IH"[OF True])
      apply (simp add: upt[simplified] split: option.splits)
      done
  qed
qed


text \<open>The definitions unfolded to run the model on a concrete input.\<close>

lemmas run_defs = find_coincidences_def sort_coincidences_def sorted_branches_def
  f64_add_def f64_sub_def
  read_branches_def reorder_def and_then_def take_idx_def stable_argsort_def
  reversing_argsort_def tree_of_def hit_def times_shifted_def scan_singles.simps
  scan_forward.simps coinc_def Let_def argsort_ok_def is_argsort_def upt_rec

lemmas run_naive_defs = find_coincidences_naive_def scan_singles_naive.simps
  scan_forward_naive.simps

section \<open>The claims\<close>

subsection \<open>Degenerate input\<close>

text \<open>
  Claim C9. For an input of zero or one single, and a sort that meets its contract, the
  function raises nothing: the list of coincidences is empty, no table is written and
  the returned count is zero.
\<close>

theorem degenerate_input:
  assumes "argsort_ok argsort tr" and "length (entries tr) \<le> 1"
  shows "find_coincidences argsort tr W d = Inr [] \<and>
         sort_coincidences argsort tr W d = Inr \<lparr> written = None, returned = 0 \<rparr>"
proof -
  from sorted_branches_props[OF assms(1)] obtain c where
    c: "sorted_branches argsort tr = Inr c" and len: "length (times_arr c) = length (entries tr)"
    by blast
  from len assms(2) have "[0..<length (times_arr c) - 1] = []" by simp
  then have "find_coincidences argsort tr W d = Inr []"
    using find_coincidences_Inr[OF c, of W d] by simp
  then show ?thesis by (simp add: sort_coincidences_def)
qed

theorem degenerate_input_witness:
  "argsort_ok stable_argsort (tree_of [hit 1 0 1]) \<and>
   length (entries (tree_of [hit 1 0 1])) \<le> 1 \<and>
   sort_coincidences stable_argsort (tree_of [hit 1 0 1]) 120 0 =
     Inr \<lparr> written = None, returned = 0 \<rparr>"
proof -
  have h1: "argsort_ok stable_argsort (tree_of [hit 1 0 1])"
    by (simp add: argsort_ok_def is_argsort_stable)
  have h2: "length (entries (tree_of [hit 1 0 1])) \<le> 1"
    by (simp add: tree_of_def)
  from degenerate_input[OF h1 h2, of 120 0] h1 h2 show ?thesis by simp
qed

subsection \<open>What every emitted coincidence satisfies\<close>

text \<open>
  Claim C5. For every input, window and offset, and a sort that meets its contract, the
  function returns a list in which no coincidence pairs two singles of the same detector:
  \<open>volumeID1\<close> and \<open>volumeID2\<close> differ in every record.
\<close>

theorem different_detectors:
  assumes "argsort_ok argsort tr"
  shows "\<exists>cs. find_coincidences argsort tr W d = Inr cs \<and>
              (\<forall>x\<in>set cs. volumeID1 x \<noteq> volumeID2 x)"
proof -
  from sorted_branches_props[OF assms] obtain c where
    c: "sorted_branches argsort tr = Inr c" by blast
  let ?cs = "List.map_filter
           (\<lambda>i. map_option (coinc c i) (scan_forward c (times_shifted d c) W i (i + 1)))
           [0..<length (times_arr c) - 1]"
  have f: "find_coincidences argsort tr W d = Inr ?cs" by (rule find_coincidences_Inr[OF c])
  have "volumeID1 x \<noteq> volumeID2 x" if "x \<in> set ?cs" for x
  proof -
    from emitted_origin[OF c f that] obtain i j where
      "scan_forward c (times_shifted d c) W i (i + 1) = Some j" and x: "x = coinc c i j"
      by blast
    then have "volumeIDs c ! i \<noteq> volumeIDs c ! j" by (blast dest: scan_forward_Some)
    with x show ?thesis by (simp add: coinc_def)
  qed
  with f show ?thesis by blast
qed

theorem different_detectors_witness:
  "argsort_ok stable_argsort (tree_of [hit 1 0 1, hit 1 1 2, hit 2 2 3]) \<and>
   (\<exists>cs. find_coincidences stable_argsort (tree_of [hit 1 0 1, hit 1 1 2, hit 2 2 3]) 120 0 = Inr cs \<and>
         map (\<lambda>x. (volumeID1 x, volumeID2 x)) cs = [(1, 2), (1, 2)] \<and>
         (\<forall>x\<in>set cs. volumeID1 x \<noteq> volumeID2 x))"
proof -
  have h: "argsort_ok stable_argsort (tree_of [hit 1 0 1, hit 1 1 2, hit 2 2 3])"
    by (simp add: argsort_ok_def is_argsort_stable)
  have e: "\<exists>cs. find_coincidences stable_argsort (tree_of [hit 1 0 1, hit 1 1 2, hit 2 2 3]) 120 0 = Inr cs \<and>
         map (\<lambda>x. (volumeID1 x, volumeID2 x)) cs = [(1, 2), (1, 2)]"
    by (simp add: run_defs)
  from different_detectors[OF h, of 120 0] h e show ?thesis by auto
qed

text \<open>
  Claim C10. Every emitted coincidence has the six placeholder fields equal to zero. It
  is built from two records \<open>i < j\<close> of the sorted sequence, and its \<open>runID\<close> is the run
  number of the one that supplies side 1 (zero when the tree has no branch \<open>RunID\<close>, as
  the function then fills the array with zeros).
\<close>

theorem placeholders_and_runID:
  assumes "argsort_ok argsort tr"
  shows "\<exists>cs. find_coincidences argsort tr W d = Inr cs \<and>
     (\<forall>x\<in>set cs.
        comptonPhantom1 x = 0 \<and> comptonPhantom2 x = 0 \<and>
        RayleighPhantom1 x = 0 \<and> RayleighPhantom2 x = 0 \<and>
        sourceID1 x = 0 \<and> sourceID2 x = 0 \<and>
        (\<exists>i j. i < j \<and> j < length (entries tr) \<and>
           (let idx = argsort (map GlobalTime (entries tr));
                left = entries tr ! (idx ! i); right = entries tr ! (idx ! j)
            in time1 x = GlobalTime left \<and> eventID1 x = EventID left \<and>
               trackID1 x = TrackID left \<and> volumeID1 x = PostStepUniqueVolumeID left \<and>
               time2 x = GlobalTime right \<and> eventID2 x = EventID right \<and>
               trackID2 x = TrackID right \<and> volumeID2 x = PostStepUniqueVolumeID right \<and>
               runID x = (if has_RunID tr then RunID left else 0))))"
proof -
  let ?idx = "argsort (map GlobalTime (entries tr))"
  let ?c = "read_branches (tr\<lparr>entries := map (\<lambda>k. entries tr ! k) ?idx\<rparr>)"
  have c: "sorted_branches argsort tr = Inr ?c" by (rule sorted_branches_eq[OF assms])
  from assms have len: "length ?idx = length (entries tr)"
    by (simp add: argsort_ok_def read_branches_def is_argsort_def)
  then have n: "length (times_arr ?c) = length (entries tr)" by (simp add: read_branches_def)
  let ?cs = "List.map_filter
           (\<lambda>i. map_option (coinc ?c i) (scan_forward ?c (times_shifted d ?c) W i (i + 1)))
           [0..<length (times_arr ?c) - 1]"
  have f: "find_coincidences argsort tr W d = Inr ?cs" by (rule find_coincidences_Inr[OF c])
  have "comptonPhantom1 x = 0 \<and> comptonPhantom2 x = 0 \<and>
        RayleighPhantom1 x = 0 \<and> RayleighPhantom2 x = 0 \<and>
        sourceID1 x = 0 \<and> sourceID2 x = 0 \<and>
        (\<exists>i j. i < j \<and> j < length (entries tr) \<and>
           (let idx = argsort (map GlobalTime (entries tr));
                left = entries tr ! (idx ! i); right = entries tr ! (idx ! j)
            in time1 x = GlobalTime left \<and> eventID1 x = EventID left \<and>
               trackID1 x = TrackID left \<and> volumeID1 x = PostStepUniqueVolumeID left \<and>
               time2 x = GlobalTime right \<and> eventID2 x = EventID right \<and>
               trackID2 x = TrackID right \<and> volumeID2 x = PostStepUniqueVolumeID right \<and>
               runID x = (if has_RunID tr then RunID left else 0)))" if "x \<in> set ?cs" for x
  proof -
    from emitted_origin[OF c f that] obtain i j where
      sf: "scan_forward ?c (times_shifted d ?c) W i (i + 1) = Some j" and x: "x = coinc ?c i j"
      by blast
    from scan_forward_Some[OF sf] n have ij: "i < j" "j < length (entries tr)" by auto
    then have "i < length ?idx" "j < length ?idx" using len by auto
    then have "time1 x = GlobalTime (entries tr ! (?idx ! i)) \<and> eventID1 x = EventID (entries tr ! (?idx ! i)) \<and>
               trackID1 x = TrackID (entries tr ! (?idx ! i)) \<and> volumeID1 x = PostStepUniqueVolumeID (entries tr ! (?idx ! i)) \<and>
               time2 x = GlobalTime (entries tr ! (?idx ! j)) \<and> eventID2 x = EventID (entries tr ! (?idx ! j)) \<and>
               trackID2 x = TrackID (entries tr ! (?idx ! j)) \<and> volumeID2 x = PostStepUniqueVolumeID (entries tr ! (?idx ! j)) \<and>
               runID x = (if has_RunID tr then RunID (entries tr ! (?idx ! i)) else 0)"
      using x by (simp add: coinc_def read_branches_def)
    with ij have "\<exists>i j. i < j \<and> j < length (entries tr) \<and>
           (let idx = argsort (map GlobalTime (entries tr));
                left = entries tr ! (idx ! i); right = entries tr ! (idx ! j)
            in time1 x = GlobalTime left \<and> eventID1 x = EventID left \<and>
               trackID1 x = TrackID left \<and> volumeID1 x = PostStepUniqueVolumeID left \<and>
               time2 x = GlobalTime right \<and> eventID2 x = EventID right \<and>
               trackID2 x = TrackID right \<and> volumeID2 x = PostStepUniqueVolumeID right \<and>
               runID x = (if has_RunID tr then RunID left else 0))"
      unfolding Let_def by blast
    moreover have "comptonPhantom1 x = 0 \<and> comptonPhantom2 x = 0 \<and>
        RayleighPhantom1 x = 0 \<and> RayleighPhantom2 x = 0 \<and>
        sourceID1 x = 0 \<and> sourceID2 x = 0" using x by (simp add: coinc_def)
    ultimately show ?thesis by blast
  qed
  with f show ?thesis by blast
qed

theorem placeholders_and_runID_witness:
  "argsort_ok stable_argsort (tree_of [hit 1 0 1, (hit 2 50 2)\<lparr>RunID := 9\<rparr>]) \<and>
   (\<exists>cs. find_coincidences stable_argsort
            (tree_of [hit 1 0 1, (hit 2 50 2)\<lparr>RunID := 9\<rparr>]) 120 0 = Inr cs \<and>
         map (\<lambda>x. (eventID1 x, eventID2 x, runID x)) cs = [(1, 2, 7)] \<and>
         (\<forall>x\<in>set cs. comptonPhantom1 x = 0 \<and> comptonPhantom2 x = 0 \<and>
            RayleighPhantom1 x = 0 \<and> RayleighPhantom2 x = 0 \<and>
            sourceID1 x = 0 \<and> sourceID2 x = 0))"
proof -
  let ?T = "tree_of [hit 1 0 1, (hit 2 50 2)\<lparr>RunID := 9\<rparr>]"
  have h: "argsort_ok stable_argsort ?T"
    by (simp add: argsort_ok_def is_argsort_stable)
  have e: "\<exists>cs. find_coincidences stable_argsort ?T 120 0 = Inr cs \<and>
         map (\<lambda>x. (eventID1 x, eventID2 x, runID x)) cs = [(1, 2, 7)]"
    by (simp add: run_defs)
  from placeholders_and_runID[OF h, of 120 0] h e show ?thesis by auto
qed

subsection \<open>The offset\<close>




text \<open>
  Claim C1. The delayed pass does not pair the timeline with a translated copy of itself.
  Two singles on different detectors, 50 ns apart, are still paired when the function is
  run with the window of 120 ns and the offset of 500 ns that \<open>main\<close> uses for the delayed
  output, although the first single and the translated second one are 550 ns apart; the
  result is the one of the prompt pass.
\<close>

theorem delayed_pass_pairs_prompt:
  "find_coincidences stable_argsort (tree_of [hit 1 0 1, hit 2 50 2]) 120 500 =
     Inr [\<lparr> time1 = 0, time2 = 50, eventID1 = 1, eventID2 = 2, energy1 = 511,
            energy2 = 511, globalPosX1 = 0, globalPosY1 = 0, globalPosZ1 = 0,
            globalPosX2 = 0, globalPosY2 = 0, globalPosZ2 = 0, volumeID1 = 1,
            volumeID2 = 2, runID = 7, trackID1 = 1, trackID2 = 1,
            comptonPhantom1 = 0, comptonPhantom2 = 0, RayleighPhantom1 = 0,
            RayleighPhantom2 = 0, sourceID1 = 0, sourceID2 = 0 \<rparr>] \<and>
   sort_coincidences stable_argsort (tree_of [hit 1 0 1, hit 2 50 2]) 120 500 =
   sort_coincidences stable_argsort (tree_of [hit 1 0 1, hit 2 50 2]) 120 0"
  by (simp add: run_defs)

subsection \<open>Sorting\<close>

text \<open>
  Claim C3, as amended. With a sort that meets its contract, all per-record arrays are
  reordered in lock-step by one index array: they are the branches of the tree whose
  entries are the input entries rearranged by that index array, the rearrangement keeps
  every entry, and the times and the shifted times are ascending. The order of two
  records with the same time is left to the library call.
\<close>

theorem sorting_lock_step:
  assumes "argsort_ok argsort tr"
  shows "\<exists>c. sorted_branches argsort tr = Inr c \<and>
     c = read_branches
           (tr\<lparr>entries := map (\<lambda>k. entries tr ! k) (argsort (map GlobalTime (entries tr)))\<rparr>) \<and>
     mset (map (\<lambda>k. entries tr ! k) (argsort (map GlobalTime (entries tr)))) =
       mset (entries tr) \<and>
     sorted (times_arr c) \<and> sorted (times_shifted d c)"
proof -
  let ?idx = "argsort (map GlobalTime (entries tr))"
  from assms have a: "is_argsort (map GlobalTime (entries tr)) ?idx"
    by (simp add: argsort_ok_def read_branches_def)
  have "mset (map (\<lambda>k. entries tr ! k) ?idx) = mset (entries tr)"
    by (rule is_argsort_permutes[OF a]) simp
  moreover from sorted_branches_props[OF assms] obtain c where
    "sorted_branches argsort tr = Inr c" "sorted (times_arr c)" by blast
  ultimately show ?thesis
    using sorted_branches_eq[OF assms] sorted_times_shifted[of c d] by simp
qed

theorem sorting_lock_step_witness:
  "argsort_ok stable_argsort (tree_of [hit 1 50 1, hit 2 0 2, hit 3 20 3]) \<and>
   sorted_branches stable_argsort (tree_of [hit 1 50 1, hit 2 0 2, hit 3 20 3]) =
     Inr (read_branches (tree_of [hit 2 0 2, hit 3 20 3, hit 1 50 1])) \<and>
   times_arr (read_branches (tree_of [hit 2 0 2, hit 3 20 3, hit 1 50 1])) = [0, 20, 50] \<and>
   sorted (times_arr (read_branches (tree_of [hit 2 0 2, hit 3 20 3, hit 1 50 1])))"
proof -
  let ?T = "tree_of [hit 1 50 1, hit 2 0 2, hit 3 20 3]"
  have h: "argsort_ok stable_argsort ?T"
    by (simp add: argsort_ok_def is_argsort_stable)
  have e: "read_branches (?T\<lparr>entries := map (\<lambda>k. entries ?T ! k)
                (stable_argsort (map GlobalTime (entries ?T)))\<rparr>) =
           read_branches (tree_of [hit 2 0 2, hit 3 20 3, hit 1 50 1])"
    by (simp add: run_defs)
  have t: "times_arr (read_branches (tree_of [hit 2 0 2, hit 3 20 3, hit 1 50 1])) = [0, 20, 50]"
    by (simp add: run_defs)
  from sorting_lock_step[OF h, of 0] have
    "sorted_branches stable_argsort ?T =
       Inr (read_branches (tree_of [hit 2 0 2, hit 3 20 3, hit 1 50 1]))"
    "sorted (times_arr (read_branches (tree_of [hit 2 0 2, hit 3 20 3, hit 1 50 1])))"
    unfolding e by auto
  with h t show ?thesis by blast
qed

text \<open>
  The claim as stated fails on the times \<open>[2, 1, 0, 0]\<close>. For this array the default
  \<open>np.argsort\<close> returns the index array \<open>[3, 2, 1, 0]\<close> (observed on a run of the library;
  the sort below returns the same array here): the two singles of time 0 come out in
  the order opposite to the one they had in the input.
\<close>

theorem stable_sort_counterexample:
  "argsort_ok reversing_argsort (tree_of [hit 1 2 1, hit 2 1 2, hit 3 0 3, hit 4 0 4]) \<and>
   times_arr (read_branches (tree_of [hit 1 2 1, hit 2 1 2, hit 3 0 3, hit 4 0 4])) = [2, 1, 0, 0] \<and>
   reversing_argsort [2, 1, 0, 0] = [3, 2, 1, 0] \<and>
   sorted_branches reversing_argsort (tree_of [hit 1 2 1, hit 2 1 2, hit 3 0 3, hit 4 0 4]) =
     Inr (read_branches (tree_of [hit 4 0 4, hit 3 0 3, hit 2 1 2, hit 1 2 1])) \<and>
   eventIDs (read_branches (tree_of [hit 1 2 1, hit 2 1 2, hit 3 0 3, hit 4 0 4])) = [1, 2, 3, 4] \<and>
   eventIDs (read_branches (tree_of [hit 4 0 4, hit 3 0 3, hit 2 1 2, hit 1 2 1])) = [4, 3, 2, 1]"
  by (simp add: run_defs)

subsection \<open>The scan\<close>



text \<open>
  Claim C6. When the forward scan for \<open>i\<close> meets a record \<open>j\<close> inside the window on the
  same detector, it does not store \<open>j\<close> and goes on with \<open>j + 1\<close>; so a farther record \<open>k\<close>
  inside the window on another detector, with only records of the detector of \<open>i\<close>
  between, is the one stored for \<open>i\<close>, and the pair is in the emitted list. On the singles
  (detector 1, time 0), (detector 1, time 10), (detector 2, time 15) with a window of 120
  and no offset, the first single is paired with the third and not with the second (the
  second is paired with the third as well), whatever sort meeting the contract is used.
\<close>

theorem same_detector_skip:
  "(argsort_ok argsort tr \<longrightarrow>
     (\<exists>c cs. sorted_branches argsort tr = Inr c \<and>
        find_coincidences argsort tr W d = Inr cs \<and>
        (\<forall>i j. i < j \<and> j < length (times_arr c) \<and>
             \<bar>f64_sub (times_shifted d c ! j) (times_shifted d c ! i)\<bar> \<le> W \<and>
             volumeIDs c ! i = volumeIDs c ! j
           \<longrightarrow> scan_forward c (times_shifted d c) W i j =
                 scan_forward c (times_shifted d c) W i (Suc j) \<and>
               scan_forward c (times_shifted d c) W i (i + 1) \<noteq> Some j) \<and>
        (\<forall>i k. i < k \<and> k < length (times_arr c) \<and>
             \<bar>f64_sub (times_shifted d c ! k) (times_shifted d c ! i)\<bar> \<le> W \<and>
             volumeIDs c ! i \<noteq> volumeIDs c ! k \<and>
             (\<forall>m. i < m \<and> m < k \<longrightarrow> volumeIDs c ! m = volumeIDs c ! i)
           \<longrightarrow> scan_forward c (times_shifted d c) W i (i + 1) = Some k \<and>
               coinc c i k \<in> set cs))) \<and>
   (argsort_ok argsort (tree_of [hit 1 0 1, hit 1 10 2, hit 2 15 3])
      \<longrightarrow> (\<exists>cs. find_coincidences argsort (tree_of [hit 1 0 1, hit 1 10 2, hit 2 15 3]) 120 0 = Inr cs \<and>
              map (\<lambda>x. (eventID1 x, eventID2 x, time1 x, time2 x)) cs =
                [(1, 3, 0, 15), (2, 3, 10, 15)]))"
proof (intro conjI impI)
  assume ok: "argsort_ok argsort tr"
  from sorted_branches_props[OF ok] obtain c where
    c: "sorted_branches argsort tr = Inr c" and s: "sorted (times_arr c)" by blast
  let ?ts = "times_shifted d c"
  let ?n = "length (times_arr c)"
  let ?cs = "List.map_filter (\<lambda>i. map_option (coinc c i) (scan_forward c ?ts W i (i + 1)))
               [0..<?n - 1]"
  have s': "sorted ?ts" by (rule sorted_times_shifted[OF s])
  have l: "length ?ts = ?n" by (simp add: times_shifted_def)
  have f: "find_coincidences argsort tr W d = Inr ?cs" by (rule find_coincidences_Inr[OF c])
  have skip: "scan_forward c ?ts W i j = scan_forward c ?ts W i (Suc j) \<and>
              scan_forward c ?ts W i (i + 1) \<noteq> Some j"
    if "i < j" "j < ?n" "\<bar>f64_sub (?ts ! j) (?ts ! i)\<bar> \<le> W" "volumeIDs c ! i = volumeIDs c ! j" for i j
  proof -
    have "scan_forward c ?ts W i j = scan_forward c ?ts W i (Suc j)"
      using that by (subst scan_forward.simps) simp
    moreover have "scan_forward c ?ts W i (i + 1) \<noteq> Some j"
      using that(4) by (auto dest: scan_forward_Some)
    ultimately show ?thesis by simp
  qed
  have far: "scan_forward c ?ts W i (i + 1) = Some k \<and> coinc c i k \<in> set ?cs"
    if "i < k" "k < ?n" "\<bar>f64_sub (?ts ! k) (?ts ! i)\<bar> \<le> W" "volumeIDs c ! i \<noteq> volumeIDs c ! k"
      "\<forall>m. i < m \<and> m < k \<longrightarrow> volumeIDs c ! m = volumeIDs c ! i" for i k
  proof -
    have sf: "scan_forward c ?ts W i (i + 1) = Some k"
      unfolding scan_forward_least[OF s' l] using that by auto
    moreover from that have "i \<in> set [0..<?n - 1]" by auto
    ultimately have "coinc c i k \<in> set ?cs"
      unfolding in_set_map_filter by (intro bexI[of _ i]) simp_all
    with sf show ?thesis by simp
  qed
  from c f skip far
  show "\<exists>c cs. sorted_branches argsort tr = Inr c \<and>
        find_coincidences argsort tr W d = Inr cs \<and>
        (\<forall>i j. i < j \<and> j < length (times_arr c) \<and>
             \<bar>f64_sub (times_shifted d c ! j) (times_shifted d c ! i)\<bar> \<le> W \<and>
             volumeIDs c ! i = volumeIDs c ! j
           \<longrightarrow> scan_forward c (times_shifted d c) W i j =
                 scan_forward c (times_shifted d c) W i (Suc j) \<and>
               scan_forward c (times_shifted d c) W i (i + 1) \<noteq> Some j) \<and>
        (\<forall>i k. i < k \<and> k < length (times_arr c) \<and>
             \<bar>f64_sub (times_shifted d c ! k) (times_shifted d c ! i)\<bar> \<le> W \<and>
             volumeIDs c ! i \<noteq> volumeIDs c ! k \<and>
             (\<forall>m. i < m \<and> m < k \<longrightarrow> volumeIDs c ! m = volumeIDs c ! i)
           \<longrightarrow> scan_forward c (times_shifted d c) W i (i + 1) = Some k \<and>
               coinc c i k \<in> set cs)"
    by blast
next
  let ?T = "tree_of [hit 1 0 1, hit 1 10 2, hit 2 15 3]"
  assume "argsort_ok argsort ?T"
  then have "is_argsort [0, 10, 15] (argsort [0, 10, 15])"
    by (simp add: argsort_ok_def read_branches_def tree_of_def hit_def)
  then have "argsort [0, 10, 15] = [0..<length [0, 10, 15 :: real]]"
    by (rule is_argsort_strict) simp_all
  then have idx: "argsort [0, 10, 15] = [0, 1, 2]"
    by (simp add: upt_rec)
  show "\<exists>cs. find_coincidences argsort ?T 120 0 = Inr cs \<and>
              map (\<lambda>x. (eventID1 x, eventID2 x, time1 x, time2 x)) cs =
                [(1, 3, 0, 15), (2, 3, 10, 15)]"
    by (simp add: run_defs idx)
qed

theorem same_detector_skip_witness:
  "argsort_ok stable_argsort (tree_of [hit 1 0 1, hit 1 10 2, hit 2 15 3]) \<and>
   sorted_branches stable_argsort (tree_of [hit 1 0 1, hit 1 10 2, hit 2 15 3]) =
     Inr (read_branches (tree_of [hit 1 0 1, hit 1 10 2, hit 2 15 3])) \<and>
   scan_forward (read_branches (tree_of [hit 1 0 1, hit 1 10 2, hit 2 15 3]))
     (times_shifted 0 (read_branches (tree_of [hit 1 0 1, hit 1 10 2, hit 2 15 3]))) 120 0 (0 + 1) = Some 2 \<and>
   (\<exists>cs. find_coincidences stable_argsort (tree_of [hit 1 0 1, hit 1 10 2, hit 2 15 3]) 120 0 = Inr cs \<and>
         map (\<lambda>x. (eventID1 x, eventID2 x, time1 x, time2 x)) cs = [(1, 3, 0, 15), (2, 3, 10, 15)])"
proof -
  let ?T = "tree_of [hit 1 0 1, hit 1 10 2, hit 2 15 3]"
  let ?c = "read_branches ?T"
  have h: "argsort_ok stable_argsort ?T"
    by (simp add: argsort_ok_def is_argsort_stable)
  have sb: "sorted_branches stable_argsort ?T = Inr ?c"
    by (simp add: run_defs)
  from same_detector_skip[of stable_argsort ?T 120 0] h sb
  have far: "\<And>i k. i < k \<and> k < length (times_arr ?c) \<and>
             \<bar>f64_sub (times_shifted 0 ?c ! k) (times_shifted 0 ?c ! i)\<bar> \<le> 120 \<and>
             volumeIDs ?c ! i \<noteq> volumeIDs ?c ! k \<and>
             (\<forall>m. i < m \<and> m < k \<longrightarrow> volumeIDs ?c ! m = volumeIDs ?c ! i)
           \<Longrightarrow> scan_forward ?c (times_shifted 0 ?c) 120 i (i + 1) = Some k"
    and ex: "\<exists>cs. find_coincidences stable_argsort ?T 120 0 = Inr cs \<and>
         map (\<lambda>x. (eventID1 x, eventID2 x, time1 x, time2 x)) cs = [(1, 3, 0, 15), (2, 3, 10, 15)]"
    by auto
  have "\<forall>m::nat. 0 < m \<and> m < 2 \<longrightarrow> m = 1" by auto
  then have "scan_forward ?c (times_shifted 0 ?c) 120 0 (0 + 1) = Some 2"
    by (intro far)
       (auto simp add: read_branches_def tree_of_def hit_def times_shifted_def f64_add_def
          f64_sub_def)
  with h sb ex show ?thesis by blast
qed

text \<open>
  Claim C7. First qualifying match wins. The emitted list has, for each index \<open>i\<close> of the
  sorted sequence in increasing order, at most one coincidence with record \<open>i\<close> on side 1:
  the one with the index the inner loop returns. That index is \<open>j\<close> exactly when \<open>j\<close> is the
  smallest index after \<open>i\<close> that is inside the window (on the difference of shifted times
  the scan computes) and on a different detector; the loop returns at once when it stores
  the coincidence.
\<close>

theorem first_match_wins:
  assumes "argsort_ok argsort tr"
  shows "\<exists>c. sorted_branches argsort tr = Inr c \<and>
     find_coincidences argsort tr W d =
       Inr (List.map_filter
             (\<lambda>i. map_option (coinc c i) (scan_forward c (times_shifted d c) W i (i + 1)))
             [0..<length (times_arr c) - 1]) \<and>
     (\<forall>i j. scan_forward c (times_shifted d c) W i (i + 1) = Some j \<longleftrightarrow>
        i < j \<and> j < length (times_arr c) \<and>
        \<bar>f64_sub (times_shifted d c ! j) (times_shifted d c ! i)\<bar> \<le> W \<and>
        volumeIDs c ! i \<noteq> volumeIDs c ! j \<and>
        (\<forall>k. i < k \<and> k < j \<longrightarrow>
           \<not> (\<bar>f64_sub (times_shifted d c ! k) (times_shifted d c ! i)\<bar> \<le> W \<and>
              volumeIDs c ! i \<noteq> volumeIDs c ! k)))"
proof -
  from sorted_branches_props[OF assms] obtain c where
    c: "sorted_branches argsort tr = Inr c" and s: "sorted (times_arr c)" by blast
  have s': "sorted (times_shifted d c)" by (rule sorted_times_shifted[OF s])
  have l: "length (times_shifted d c) = length (times_arr c)" by (simp add: times_shifted_def)
  from c find_coincidences_Inr[OF c, of W d] scan_forward_least[OF s' l, of W]
  show ?thesis by blast
qed

theorem first_match_wins_witness:
  "argsort_ok stable_argsort (tree_of [hit 1 0 1, hit 2 50 2, hit 3 60 3]) \<and>
   (\<exists>cs. find_coincidences stable_argsort (tree_of [hit 1 0 1, hit 2 50 2, hit 3 60 3]) 120 0 = Inr cs \<and>
         map (\<lambda>x. (eventID1 x, eventID2 x)) cs = [(1, 2), (2, 3)]) \<and>
   scan_forward (read_branches (tree_of [hit 1 0 1, hit 2 50 2, hit 3 60 3]))
     (times_shifted 0 (read_branches (tree_of [hit 1 0 1, hit 2 50 2, hit 3 60 3]))) 120 0 (0 + 1) = Some 1"
proof -
  let ?T = "tree_of [hit 1 0 1, hit 2 50 2, hit 3 60 3]"
  have h: "argsort_ok stable_argsort ?T"
    by (simp add: argsort_ok_def is_argsort_stable)
  have sb: "sorted_branches stable_argsort ?T = Inr (read_branches ?T)"
    by (simp add: run_defs)
  from first_match_wins[OF h, of 120 0] sb
  have f: "find_coincidences stable_argsort ?T 120 0 =
       Inr (List.map_filter
             (\<lambda>i. map_option (coinc (read_branches ?T) i)
                (scan_forward (read_branches ?T) (times_shifted 0 (read_branches ?T)) 120 i (i + 1)))
             [0..<length (times_arr (read_branches ?T)) - 1])"
    and iff: "\<And>i j. scan_forward (read_branches ?T) (times_shifted 0 (read_branches ?T)) 120 i (i + 1) = Some j \<longleftrightarrow>
        i < j \<and> j < length (times_arr (read_branches ?T)) \<and>
        \<bar>f64_sub (times_shifted 0 (read_branches ?T) ! j) (times_shifted 0 (read_branches ?T) ! i)\<bar> \<le> 120 \<and>
        volumeIDs (read_branches ?T) ! i \<noteq> volumeIDs (read_branches ?T) ! j \<and>
        (\<forall>k. i < k \<and> k < j \<longrightarrow>
           \<not> (\<bar>f64_sub (times_shifted 0 (read_branches ?T) ! k) (times_shifted 0 (read_branches ?T) ! i)\<bar> \<le> 120 \<and>
              volumeIDs (read_branches ?T) ! i \<noteq> volumeIDs (read_branches ?T) ! k))"
    by auto
  have one: "scan_forward (read_branches ?T) (times_shifted 0 (read_branches ?T)) 120 0 (0 + 1) = Some 1"
    unfolding iff
    by (simp add: read_branches_def tree_of_def hit_def times_shifted_def f64_add_def f64_sub_def)
  have e: "\<exists>cs. find_coincidences stable_argsort ?T 120 0 = Inr cs \<and>
         map (\<lambda>x. (eventID1 x, eventID2 x)) cs = [(1, 2), (2, 3)]"
    by (simp add: run_defs)
  from h e one show ?thesis by blast
qed

text \<open>
  Claim C8. The early exit loses nothing: for every input, window and offset, the scan
  that stops at the first record outside the window returns exactly the list of the
  naive variant that looks at every later record.
\<close>

theorem early_exit_loses_nothing:
  assumes "argsort_ok argsort tr"
  shows "\<exists>cs. find_coincidences argsort tr W d = Inr cs \<and>
              find_coincidences_naive argsort tr W d = Inr cs"
proof -
  from sorted_branches_props[OF assms] obtain c where
    c: "sorted_branches argsort tr = Inr c" and s: "sorted (times_arr c)" by blast
  let ?ts = "times_shifted d c"
  have s': "sorted ?ts" by (rule sorted_times_shifted[OF s])
  have l: "length ?ts = length (times_arr c)" by (simp add: times_shifted_def)
  have "scan_forward c ?ts W i (i + 1) = scan_forward_naive c ?ts W i (i + 1)" for i
    by (simp add: scan_forward_sorted[OF s' l] scan_forward_naive_find)
  then have "scan_singles c ?ts W 0 [] = scan_singles_naive c ?ts W 0 []"
    by (simp add: scan_singles_eq scan_singles_naive_eq)
  with c show ?thesis
    by (simp add: find_coincidences_def find_coincidences_naive_def)
qed

theorem early_exit_loses_nothing_witness:
  "argsort_ok stable_argsort (tree_of [hit 1 0 1, hit 2 50 2, hit 1 1000 3, hit 2 1080 4]) \<and>
   (\<exists>cs. find_coincidences stable_argsort
            (tree_of [hit 1 0 1, hit 2 50 2, hit 1 1000 3, hit 2 1080 4]) 120 0 = Inr cs \<and>
         find_coincidences_naive stable_argsort
            (tree_of [hit 1 0 1, hit 2 50 2, hit 1 1000 3, hit 2 1080 4]) 120 0 = Inr cs \<and>
         map (\<lambda>x. (time1 x, time2 x)) cs = [(0, 50), (1000, 1080)])"
proof -
  let ?T = "tree_of [hit 1 0 1, hit 2 50 2, hit 1 1000 3, hit 2 1080 4]"
  have h: "argsort_ok stable_argsort ?T"
    by (simp add: argsort_ok_def is_argsort_stable)
  have e: "\<exists>cs. find_coincidences_naive stable_argsort ?T 120 0 = Inr cs \<and>
         map (\<lambda>x. (time1 x, time2 x)) cs = [(0, 50), (1000, 1080)]"
    by (simp add: run_defs run_naive_defs)
  from early_exit_loses_nothing[OF h, of 120 0] h e show ?thesis by auto
qed

end
